theory Spec2Isabelle
  imports Main "HOL-Library.Word" "HOL-Library.Multiset" "HOL-Library.Sublist"
begin

section \<open>Permission-scoped query filtering (pkg/services/accesscontrol/filter.go)\<close>

subsection \<open>Values\<close>

text \<open>
  Go's \<^verbatim>\<open>interface{}\<close>, restricted to the dynamic types the file stores in it: an
  \<^verbatim>\<open>int64\<close> (from \<^verbatim>\<open>strconv.ParseInt\<close>, or an organisation, user or team id) and a
  \<^verbatim>\<open>string\<close>. Two such values are equal only when both the dynamic type and the value
  agree, which is how they behave as keys of a Go map.
\<close>

datatype any = AnyInt64 "64 word" | AnyString string

text \<open>\<^verbatim>\<open>errors.New(msg)\<close>; a nil error is \<open>None\<close> of \<open>error option\<close>.\<close>

datatype error = Error string

text \<open>\<^verbatim>\<open>type SQLFilter struct { Where string; Args []interface{} }\<close>; a nil slice is \<open>[]\<close>.\<close>

record SQLFilter =
  Where :: string
  Args :: "any list"

definition denyQuery :: SQLFilter where
  "denyQuery = \<lparr>Where = '' 1 = 0'', Args = []\<rparr>"

definition allowAllQuery :: SQLFilter where
  "allowAllQuery = \<lparr>Where = '' 1 = 1'', Args = []\<rparr>"

text \<open>
  The initial value of the package variable \<^verbatim>\<open>sqlIDAcceptList\<close>, a
  \<^verbatim>\<open>map[string]struct{}\<close> used as a set. \<^verbatim>\<open>SetAcceptListForTest\<close> can replace the
  variable, so \<open>Filter\<close> below takes the current list as its first argument.
\<close>

definition sqlIDAcceptList :: "string list" where
  "sqlIDAcceptList =
     [''id'', ''org_user.user_id'', ''role.uid'', ''t.id'', ''team.id'', ''u.id'',
      [CHR 0x22] @ ''user'' @ [CHR 0x22] @ ''.'' @ [CHR 0x22] @ ''id'' @ [CHR 0x22],
      ''`user`.`id`'', ''dashboard.uid'']"

text \<open>
  Modelled from the spec: the type \<^verbatim>\<open>user.SignedInUser\<close> is declared outside the files at
  hand. The spec (section 6) gives it an organisation id and a permission map keyed by
  organisation id, then action name, to an ordered list of scope strings; \<open>Filter\<close> reads
  these two fields only. The outer map may be nil (\<open>None\<close>). An inner map that is nil and
  an organisation without an entry both read as nil in Go
  (\<^verbatim>\<open>user.Permissions[user.OrgID] == nil\<close>) and are both \<open>None\<close> here.
\<close>

record SignedInUser =
  OrgID :: "64 word"
  Permissions :: "(64 word \<rightharpoonup> (string \<rightharpoonup> string list)) option"

subsection \<open>The Go library functions the file calls\<close>

text \<open>\<^verbatim>\<open>strings.HasPrefix\<close>, \<^verbatim>\<open>strings.HasSuffix\<close>: Go strings are byte sequences, as \<open>string\<close> is.\<close>

definition HasPrefix :: "string \<Rightarrow> string \<Rightarrow> bool" where
  "HasPrefix s p = (length p \<le> length s \<and> take (length p) s = p)"

definition HasSuffix :: "string \<Rightarrow> string \<Rightarrow> bool" where
  "HasSuffix s p = (length p \<le> length s \<and> drop (length s - length p) s = p)"

text \<open>\<^verbatim>\<open>strings.LastIndex(s, ":")\<close> for a one-byte separator: \<open>-1\<close> when it does not occur.\<close>

fun LastIndex :: "string \<Rightarrow> char \<Rightarrow> int" where
  "LastIndex [] c = - 1"
| "LastIndex (x # xs) c =
     (let i = LastIndex xs c in
      if 0 \<le> i then i + 1 else if x = c then 0 else - 1)"

text \<open>\<^verbatim>\<open>strings.Repeat(s, n)\<close> for \<open>n \<ge> 0\<close> (every caller passes a length minus one of a
  non-empty list).\<close>

definition Repeat :: "string \<Rightarrow> nat \<Rightarrow> string" where
  "Repeat s n = concat (replicate n s)"

text \<open>
  \<^verbatim>\<open>strconv.ParseInt(s, 10, 64)\<close>, with \<open>None\<close> for a non-nil error: the input is an
  optional sign followed by at least one decimal digit and nothing else (a syntax error
  otherwise), and the value must lie in \<open>[-2^63, 2^63 - 1]\<close> (a range error otherwise).
  The digits are accumulated in an unbounded \<open>int\<close>; Go's overflow check on the unsigned
  accumulator ends in the same range error.
\<close>

definition digit :: "char \<Rightarrow> int option" where
  "digit c = (let n = (of_char c :: int) in if 48 \<le> n \<and> n \<le> 57 then Some (n - 48) else None)"

fun digits :: "string \<Rightarrow> int \<Rightarrow> int option" where
  "digits [] n = Some n"
| "digits (c # cs) n = (case digit c of None \<Rightarrow> None | Some d \<Rightarrow> digits cs (n * 10 + d))"

definition ParseUint :: "string \<Rightarrow> int option" where
  "ParseUint s = (if s = [] then None else digits s 0)"

definition ParseInt :: "string \<Rightarrow> 64 word option" where
  "ParseInt s =
     (if s = [] then None
      else let neg = (hd s = CHR ''-'');
               s' = (if hd s = CHR ''+'' \<or> hd s = CHR ''-'' then tl s else s)
           in case ParseUint s' of
                None \<Rightarrow> None
              | Some un \<Rightarrow>
                  if \<not> neg \<and> 2 ^ 63 \<le> un then None
                  else if neg \<and> 2 ^ 63 < un then None
                  else Some (if neg then - word_of_int un else word_of_int un))"

subsection \<open>Wildcards\<close>

text \<open>\<^verbatim>\<open>strings.Split(s, ":")\<close>: the segments between the colons, empty ones included.\<close>

fun Split :: "string \<Rightarrow> string list" where
  "Split [] = [[]]"
| "Split (c # cs) =
     (if c = CHR '':'' then [] # Split cs
      else case Split cs of [] \<Rightarrow> [[c]] | p # ps \<Rightarrow> (c # p) # ps)"

text \<open>
  Modelled from the spec: \<^verbatim>\<open>WildcardsFromPrefix\<close> and the \<^verbatim>\<open>Contains\<close> method of its result are
  called by \<^verbatim>\<open>ParseScopes\<close> but defined outside the files at hand. The spec (sections 3 and
  4.2) has a prefix of colon-separated segments \<^verbatim>\<open>resourceKind:attribute:\<close> produce the chain
  of wildcards from the most general to the most specific, \<^verbatim>\<open>resourceKind:*\<close> and
  \<^verbatim>\<open>resourceKind:attribute:*\<close>, and a scope match when it is exactly equal to one of them.
\<close>

fun wildcardChain :: "string \<Rightarrow> string list \<Rightarrow> string list" where
  "wildcardChain b [] = []"
| "wildcardChain b (p # ps) =
     (if p = [] then wildcardChain b ps
      else (b @ p @ '':*'') # wildcardChain (b @ p @ '':'') ps)"

definition WildcardsFromPrefix :: "string \<Rightarrow> string list" where
  "WildcardsFromPrefix pfx = wildcardChain [] (Split pfx)"

definition Contains :: "string list \<Rightarrow> string \<Rightarrow> bool" where
  "Contains wildcards scope = (scope \<in> set wildcards)"

subsection \<open>ParseScopes\<close>

text \<open>The two parsers return \<^verbatim>\<open>(interface{}, error)\<close>; \<open>None\<close> stands for a non-nil error.
  \<^verbatim>\<open>scope[strings.LastIndex(scope, ":")+1:]\<close> is the whole scope when it has no colon.\<close>

definition parseIntAttribute :: "string \<Rightarrow> any option" where
  "parseIntAttribute scope =
     map_option AnyInt64 (ParseInt (drop (nat (LastIndex scope (CHR '':'') + 1)) scope))"

definition parseStringAttribute :: "string \<Rightarrow> any option" where
  "parseStringAttribute scope =
     Some (AnyString (drop (nat (LastIndex scope (CHR '':'') + 1)) scope))"

text \<open>
  The set \<^verbatim>\<open>ids\<close> (a \<^verbatim>\<open>map[interface{}]struct{}\<close>) is a list without repetitions, in the
  order of first insertion; \<^verbatim>\<open>return nil, true\<close> is \<open>([], True)\<close>.
\<close>

fun scopesLoop :: "(string \<Rightarrow> any option) \<Rightarrow> string list \<Rightarrow> string \<Rightarrow> string list \<Rightarrow> any list
    \<Rightarrow> any list \<times> bool" where
  "scopesLoop parser wildcards pfx [] ids = (ids, False)"
| "scopesLoop parser wildcards pfx (scope # scopes) ids =
     (if Contains wildcards scope then ([], True)
      else if HasPrefix scope pfx then
        (case parser scope of
           Some i \<Rightarrow> scopesLoop parser wildcards pfx scopes (if i \<in> set ids then ids else ids @ [i])
         | None \<Rightarrow> scopesLoop parser wildcards pfx scopes ids)
      else scopesLoop parser wildcards pfx scopes ids)"

definition ParseScopes :: "string \<Rightarrow> string list \<Rightarrow> any list \<times> bool" where
  "ParseScopes pfx scopes =
     (let parser = (if HasSuffix pfx '':id:'' then parseIntAttribute else parseStringAttribute);
          wildcards = WildcardsFromPrefix pfx
      in scopesLoop parser wildcards pfx scopes [])"

subsection \<open>Filter\<close>

text \<open>\<^verbatim>\<open>user.Permissions[user.OrgID][a]\<close>: the nil slice, which ranges as the empty one, when
  the action has no entry.\<close>

definition scopesOf :: "(string \<rightharpoonup> string list) \<Rightarrow> string \<Rightarrow> string list" where
  "scopesOf perms a = (case perms a of None \<Rightarrow> [] | Some scopes \<Rightarrow> scopes)"

text \<open>\<^verbatim>\<open>result[id] += 1\<close> on the tally \<^verbatim>\<open>map[interface{}]int\<close>, kept as an association list
  with one entry per key. A count never exceeds the number of actions, so it is a \<open>nat\<close>.\<close>

fun incr :: "any \<Rightarrow> (any \<times> nat) list \<Rightarrow> (any \<times> nat) list" where
  "incr i [] = [(i, 1)]"
| "incr i ((k, c) # r) = (if i = k then (k, c + 1) # r else (k, c) # incr i r)"

text \<open>
  The loop over the actions, from the state \<open>(wildcards, result)\<close>. \<open>None\<close> is the early
  \<^verbatim>\<open>return denyQuery, nil\<close> at an action with no identifier and no wildcard. The inner
  \<^verbatim>\<open>for id := range ids\<close> visits the set in the order of the list; the counts it leaves do not
  depend on that order (\<open>tallyOf_foldl\<close> below).
\<close>

fun actionsLoop :: "string \<Rightarrow> (string \<rightharpoonup> string list) \<Rightarrow> string list \<Rightarrow> nat \<Rightarrow> (any \<times> nat) list
    \<Rightarrow> (nat \<times> (any \<times> nat) list) option" where
  "actionsLoop pfx perms [] wildcards result = Some (wildcards, result)"
| "actionsLoop pfx perms (a # actions) wildcards result =
     (case ParseScopes pfx (scopesOf perms a) of
        (ids, hasWildcard) \<Rightarrow>
          if hasWildcard then actionsLoop pfx perms actions (wildcards + 1) result
          else if length ids = 0 then None
          else actionsLoop pfx perms actions wildcards (foldl (\<lambda>r i. incr i r) result ids))"

text \<open>
  \<open>Filter acceptList order user sqlID pfx actions\<close>. A nil \<^verbatim>\<open>user\<close> is \<open>None\<close>. Go
  leaves the order in which \<^verbatim>\<open>range result\<close> visits a map unspecified: \<open>order\<close> is the
  order the runtime picks, a rearrangement of the entries of \<open>result\<close>. The result pairs the
  filter with the error, as the Go function returns both.
\<close>

definition Filter :: "string list \<Rightarrow> ((any \<times> nat) list \<Rightarrow> (any \<times> nat) list) \<Rightarrow> SignedInUser option
    \<Rightarrow> string \<Rightarrow> string \<Rightarrow> string list \<Rightarrow> SQLFilter \<times> error option" where
  "Filter acceptList order user sqlID pfx actions =
     (if sqlID \<notin> set acceptList
      then (denyQuery, Some (Error ''sqlID is not in the accept list''))
      else case user of
        None \<Rightarrow> (denyQuery, Some (Error ''missing permissions''))
      | Some u \<Rightarrow>
         (case Permissions u of
            None \<Rightarrow> (denyQuery, Some (Error ''missing permissions''))
          | Some pm \<Rightarrow>
             (case pm (OrgID u) of
                None \<Rightarrow> (denyQuery, Some (Error ''missing permissions''))
              | Some perms \<Rightarrow>
                 (case actionsLoop pfx perms actions 0 [] of
                    None \<Rightarrow> (denyQuery, None)
                  | Some (wildcards, result) \<Rightarrow>
                      if wildcards = length actions then (allowAllQuery, None)
                      else
                        let ids = map fst (filter (\<lambda>(i, count). count + wildcards = length actions)
                                    (order result))
                        in if length ids = 0 then (denyQuery, None)
                           else (\<lparr>Where = '' '' @ sqlID @ '' IN '' @ ''(?''
                                           @ Repeat '',?'' (length ids - 1) @ '')'',
                                  Args = ids\<rparr>, None)))))"

subsection \<open>UserRolesFilter\<close>

text \<open>
  The constant \<^verbatim>\<open>GlobalOrgID\<close>, the organisation id that stands for the global organisation, is
  declared outside the files at hand: the functions below take its value as their first
  argument. A raw string literal between back quotes keeps its line feeds (\<open>0x0A\<close>) and tabs
  (\<open>0x09\<close>); \<^verbatim>\<open>fmt.Sprintf\<close> puts \<^verbatim>\<open>sql\<close> in place of \<^verbatim>\<open>%s\<close>.
\<close>

definition UserRolesFilterCondition :: "any \<Rightarrow> 64 word \<Rightarrow> 64 word \<Rightarrow> string \<times> any list" where
  "UserRolesFilterCondition GlobalOrgID orgID userID =
     (if userID = 0 then ('''', [])
      else (''ur.user_id = ? AND (ur.org_id = ? OR ur.org_id = 0)'',
            [AnyInt64 userID, AnyInt64 orgID, GlobalOrgID]))"

definition userRolesFilter :: "any \<Rightarrow> 64 word \<Rightarrow> 64 word \<Rightarrow> string \<times> any list" where
  "userRolesFilter GlobalOrgID orgID userID =
     (case UserRolesFilterCondition GlobalOrgID orgID userID of
        (sql, params) \<Rightarrow>
          if sql = '''' then (sql, params)
          else ([CHR 0x0A, CHR 0x09] @ ''SELECT ur.role_id''
                @ [CHR 0x0A, CHR 0x09] @ ''FROM user_role AS ur''
                @ [CHR 0x0A, CHR 0x09] @ ''WHERE '' @ sql
                @ [CHR 0x0A, CHR 0x09], params))"

definition TeamRolesFilderCondition :: "64 word \<Rightarrow> 64 word list \<Rightarrow> string \<times> any list" where
  "TeamRolesFilderCondition orgID teamIDs =
     (if length teamIDs = 0 then ('''', [])
      else (''tr.team_id IN(?'' @ Repeat '', ?'' (length teamIDs - 1) @ '') AND tr.org_id = ?'',
            map AnyInt64 teamIDs @ [AnyInt64 orgID]))"

definition teamRolesFilter :: "64 word \<Rightarrow> 64 word list \<Rightarrow> string \<times> any list" where
  "teamRolesFilter orgID teamIDs =
     (case TeamRolesFilderCondition orgID teamIDs of
        (sql, params) \<Rightarrow>
          if sql = '''' then (sql, params)
          else ([CHR 0x0A, CHR 0x09] @ ''SELECT tr.role_id FROM team_role as tr''
                @ [CHR 0x0A, CHR 0x09] @ ''WHERE '' @ sql
                @ [CHR 0x0A, CHR 0x09], params))"

definition BuiltinRolesFilterCondition :: "any \<Rightarrow> 64 word \<Rightarrow> string list \<Rightarrow> string \<times> any list" where
  "BuiltinRolesFilterCondition GlobalOrgID orgID roles =
     (if length roles = 0 then ('''', [])
      else (''br.role IN (?'' @ Repeat '', ?'' (length roles - 1)
              @ '') AND (br.org_id = ? OR br.org_id = ?)'',
            map AnyString roles @ [AnyInt64 orgID, GlobalOrgID]))"

definition builtinRolesFilter :: "any \<Rightarrow> 64 word \<Rightarrow> string list \<Rightarrow> string \<times> any list" where
  "builtinRolesFilter GlobalOrgID orgID roles =
     (case BuiltinRolesFilterCondition GlobalOrgID orgID roles of
        (sql, params) \<Rightarrow>
          if sql = '''' then (sql, params)
          else ([CHR 0x0A, CHR 0x09] @ ''SELECT br.role_id FROM builtin_role AS br''
                @ [CHR 0x0A, CHR 0x09] @ ''WHERE '' @ sql
                @ [CHR 0x0A, CHR 0x09], params))"

text \<open>
  \<open>UserRolesFilter\<close> threads the \<^verbatim>\<open>strings.Builder\<close> and the slice \<^verbatim>\<open>params\<close> through the
  three channels, each \<open>let\<close> rebinding them as the source's assignments do.
\<close>

definition UserRolesFilter :: "any \<Rightarrow> 64 word \<Rightarrow> 64 word \<Rightarrow> 64 word list \<Rightarrow> string list
    \<Rightarrow> string \<times> any list" where
  "UserRolesFilter GlobalOrgID orgID userID teamIDs roles =
     (let params = []; builder = [];
          (sql, args) = userRolesFilter GlobalOrgID orgID userID;
          (builder, params) =
             (if sql \<noteq> '''' then (builder @ sql, params @ args) else (builder, params));
          (sql, args) = teamRolesFilter orgID teamIDs;
          (builder, params) =
             (if sql \<noteq> ''''
              then ((if 0 < length builder then builder @ '' OR '' else builder) @ sql,
                    params @ args)
              else (builder, params));
          (sql, args) = builtinRolesFilter GlobalOrgID orgID roles;
          (builder, params) =
             (if sql \<noteq> ''''
              then ((if 0 < length builder then builder @ '' OR '' else builder) @ sql,
                    params @ args)
              else (builder, params))
      in (''INNER JOIN ('' @ builder @ '') as all_role ON role.id = all_role.role_id'', params))"

subsection \<open>Notions used in the statements\<close>

text \<open>What one requested action resolves to for a user's permissions under a prefix.\<close>

definition hasWildcard :: "string \<Rightarrow> (string \<rightharpoonup> string list) \<Rightarrow> string \<Rightarrow> bool" where
  "hasWildcard pfx perms a = snd (ParseScopes pfx (scopesOf perms a))"

definition idsOf :: "string \<Rightarrow> (string \<rightharpoonup> string list) \<Rightarrow> string \<Rightarrow> any list" where
  "idsOf pfx perms a = fst (ParseScopes pfx (scopesOf perms a))"

text \<open>The count the tally holds for an identifier (\<open>0\<close> when it has no entry), and the
  invariant of the tally: one entry per key, every count positive.\<close>

definition tallyOf :: "(any \<times> nat) list \<Rightarrow> any \<Rightarrow> nat" where
  "tallyOf r x = (case map_of r x of None \<Rightarrow> 0 | Some c \<Rightarrow> c)"

definition wellFormed :: "(any \<times> nat) list \<Rightarrow> bool" where
  "wellFormed r = (distinct (map fst r) \<and> list_all (\<lambda>e. 0 < snd e) r)"

text \<open>No byte \<open>u\<close> of the string is followed by a byte \<open>s\<close> (\<open>prev\<close>: the byte before the
  string was a \<open>u\<close>).\<close>

fun usFree :: "bool \<Rightarrow> string \<Rightarrow> bool" where
  "usFree prev [] = True"
| "usFree prev (c # cs) = (\<not> (prev \<and> c = CHR ''s'') \<and> usFree (c = CHR ''u'') cs)"

text \<open>The user of the concrete instances: organisation 1, with the scopes listed per action.\<close>

definition userWithScopes :: "(string \<times> string list) list \<Rightarrow> SignedInUser" where
  "userWithScopes scopes = \<lparr>OrgID = 1, Permissions = Some [1 \<mapsto> map_of scopes]\<rparr>"

section \<open>Evaluation on concrete inputs\<close>

lemmas eval_defs =
  ParseScopes_def HasSuffix_def HasPrefix_def WildcardsFromPrefix_def Contains_def
  parseIntAttribute_def parseStringAttribute_def ParseInt_def ParseUint_def digit_def
  scopesOf_def

section \<open>The tally\<close>

lemma tallyOf_incr: "tallyOf (incr i r) x = (if x = i then tallyOf r x + 1 else tallyOf r x)"
  by (induction r) (auto simp: tallyOf_def)

lemma keys_incr:
  "map fst (incr i r) = (if i \<in> set (map fst r) then map fst r else map fst r @ [i])"
  by (induction i r rule: incr.induct) (auto simp: image_iff)

lemma positive_incr: "list_all (\<lambda>e. 0 < snd e) r \<Longrightarrow> list_all (\<lambda>e. 0 < snd e) (incr i r)"
  by (induction i r rule: incr.induct) (auto split: if_splits)

lemma wellFormed_incr: "wellFormed r \<Longrightarrow> wellFormed (incr i r)"
  unfolding wellFormed_def using positive_incr [of r i] by (simp add: keys_incr)

lemma tallyOf_foldl:
  "distinct ids \<Longrightarrow>
   tallyOf (foldl (\<lambda>r i. incr i r) r ids) x = tallyOf r x + (if x \<in> set ids then 1 else 0)"
  by (induction ids arbitrary: r) (auto simp: tallyOf_incr)

lemma wellFormed_foldl: "wellFormed r \<Longrightarrow> wellFormed (foldl (\<lambda>r i. incr i r) r ids)"
  by (induction ids arbitrary: r) (auto simp: wellFormed_incr)

lemma wellFormed_tally:
  assumes "wellFormed r"
  shows "((x, c) \<in> set r) = (0 < c \<and> tallyOf r x = c)"
proof -
  from assms have d: "distinct (map fst r)" and p: "\<forall>e \<in> set r. 0 < snd e"
    by (simp_all add: wellFormed_def list_all_iff)
  have m: "((x, c) \<in> set r) = (map_of r x = Some c)"
    using d by simp
  show ?thesis
  proof
    assume "(x, c) \<in> set r"
    with p m show "0 < c \<and> tallyOf r x = c" by (auto simp: tallyOf_def)
  next
    assume "0 < c \<and> tallyOf r x = c"
    then show "(x, c) \<in> set r" unfolding m by (auto simp: tallyOf_def split: option.splits)
  qed
qed

section \<open>ParseScopes returns a set\<close>

lemma distinct_scopesLoop:
  "distinct ids \<Longrightarrow> distinct (fst (scopesLoop parser wildcards pfx scopes ids))"
  by (induction scopes arbitrary: ids) (auto split: option.splits)

lemma distinct_ParseScopes: "distinct (fst (ParseScopes pfx scopes))"
  by (simp add: ParseScopes_def Let_def distinct_scopesLoop)

lemma distinct_idsOf: "distinct (idsOf pfx perms a)"
  by (simp add: idsOf_def distinct_ParseScopes)

section \<open>The loop over the actions\<close>

lemma actionsLoop_Cons:
  "actionsLoop pfx perms (a # actions) w r =
     (if hasWildcard pfx perms a then actionsLoop pfx perms actions (w + 1) r
      else if idsOf pfx perms a = [] then None
      else actionsLoop pfx perms actions w (foldl (\<lambda>r i. incr i r) r (idsOf pfx perms a)))"
  by (simp add: hasWildcard_def idsOf_def split: prod.splits)

lemma actionsLoop_None:
  "(actionsLoop pfx perms actions w r = None) =
     (\<exists>a \<in> set actions. \<not> hasWildcard pfx perms a \<and> idsOf pfx perms a = [])"
proof (induction actions arbitrary: w r)
  case Nil
  show ?case by simp
next
  case (Cons a actions)
  show ?case unfolding actionsLoop_Cons by (simp add: Cons.IH)
qed

lemma actionsLoop_all_wildcards:
  "\<forall>a \<in> set actions. hasWildcard pfx perms a \<Longrightarrow>
   actionsLoop pfx perms actions w r = Some (w + length actions, r)"
proof (induction actions arbitrary: w)
  case Nil
  show ?case by simp
next
  case (Cons a actions)
  then show ?case unfolding actionsLoop_Cons by simp
qed

lemma actionsLoop_wildcards:
  "actionsLoop pfx perms actions w r = Some (w', r') \<Longrightarrow>
   w' = w + length (filter (hasWildcard pfx perms) actions)"
proof (induction actions arbitrary: w r)
  case Nil
  then show ?case by simp
next
  case (Cons a actions)
  from Cons.prems show ?case unfolding actionsLoop_Cons
    by (auto split: if_splits dest: Cons.IH)
qed

lemma actionsLoop_tally:
  "actionsLoop pfx perms actions w r = Some (w', r') \<Longrightarrow>
   tallyOf r' x = tallyOf r x
     + length (filter (\<lambda>a. \<not> hasWildcard pfx perms a \<and> x \<in> set (idsOf pfx perms a)) actions)"
proof (induction actions arbitrary: w r)
  case Nil
  then show ?case by simp
next
  case (Cons a actions)
  from Cons.prems show ?case unfolding actionsLoop_Cons
    by (auto split: if_splits dest: Cons.IH simp: tallyOf_foldl distinct_idsOf)
qed

lemma actionsLoop_wellFormed:
  "actionsLoop pfx perms actions w r = Some (w', r') \<Longrightarrow> wellFormed r \<Longrightarrow> wellFormed r'"
proof (induction actions arbitrary: w r)
  case Nil
  then show ?case by simp
next
  case (Cons a actions)
  from Cons.prems show ?case unfolding actionsLoop_Cons
    by (auto split: if_splits dest: Cons.IH simp: wellFormed_foldl)
qed

lemma length_filter_split:
  "length (filter P xs) + length (filter (\<lambda>a. \<not> P a \<and> Q a) xs)
     = length (filter (\<lambda>a. P a \<or> Q a) xs)"
  by (induction xs) auto

lemma length_filter_all: "(length (filter P xs) = length xs) = (\<forall>a \<in> set xs. P a)"
proof (induction xs)
  case Nil
  show ?case by simp
next
  case (Cons a xs)
  have le: "length (filter P xs) \<le> length xs" by simp
  show ?case
  proof (cases "P a")
    case True
    with Cons show ?thesis by simp
  next
    case False
    with le show ?thesis by (simp del: length_filter_le)
  qed
qed

section \<open>The selection of the identifiers\<close>

lemma order_set:
  assumes "\<And>xs. mset (order xs) = mset xs"
  shows "set (order r) = set r"
  using assms [of r] by (rule mset_eq_setD)

lemma select_set:
  assumes ord: "\<And>xs. mset (order xs) = mset xs" and wf: "wellFormed r"
  shows "set (map fst (filter (\<lambda>(i, c). c + w = n) (order r)))
           = {x. 0 < tallyOf r x \<and> tallyOf r x + w = n}"
proof -
  have "set (map fst (filter (\<lambda>(i, c). c + w = n) (order r)))
          = {x. \<exists>c. (x, c) \<in> set r \<and> c + w = n}"
    by (force simp: order_set [OF ord])
  also have "\<dots> = {x. 0 < tallyOf r x \<and> tallyOf r x + w = n}"
    by (auto simp: wellFormed_tally [OF wf])
  finally show ?thesis .
qed

lemma select_distinct:
  assumes ord: "\<And>xs. mset (order xs) = mset xs" and wf: "wellFormed r"
  shows "distinct (map fst (filter P (order r)))"
proof -
  have "mset (map fst (filter P (order r))) = mset (map fst (filter P r))"
    by (simp add: ord)
  moreover have "distinct (map fst (filter P r))"
    using wf by (simp add: wellFormed_def distinct_map_filter)
  ultimately show ?thesis by (metis mset_eq_imp_distinct_iff)
qed

section \<open>Filter behind its two guards\<close>

lemma Filter_guarded:
  assumes "sqlID \<in> set acceptList" and "Permissions u = Some pm" and "pm (OrgID u) = Some perms"
  shows "Filter acceptList order (Some u) sqlID pfx actions =
     (case actionsLoop pfx perms actions 0 [] of
        None \<Rightarrow> (denyQuery, None)
      | Some (wildcards, result) \<Rightarrow>
          if wildcards = length actions then (allowAllQuery, None)
          else
            let ids = map fst (filter (\<lambda>(i, count). count + wildcards = length actions)
                        (order result))
            in if length ids = 0 then (denyQuery, None)
               else (\<lparr>Where = '' '' @ sqlID @ '' IN '' @ ''(?''
                               @ Repeat '',?'' (length ids - 1) @ '')'',
                      Args = ids\<rparr>, None))"
  using assms by (simp add: Filter_def)

section \<open>The bound arguments of the filter\<close>

lemma Filter_args_set:
  assumes acc: "sqlID \<in> set acceptList"
    and pm: "Permissions u = Some pm" and perms: "pm (OrgID u) = Some perms"
    and ord: "\<And>xs. mset (order xs) = mset xs"
  shows "set (Args (fst (Filter acceptList order (Some u) sqlID pfx actions))) =
     (if \<forall>a \<in> set actions. hasWildcard pfx perms a then {}
      else {x. \<forall>a \<in> set actions. hasWildcard pfx perms a \<or> x \<in> set (idsOf pfx perms a)})"
proof (cases "actionsLoop pfx perms actions 0 []")
  case None
  then obtain a where a: "a \<in> set actions" "\<not> hasWildcard pfx perms a" "idsOf pfx perms a = []"
    unfolding actionsLoop_None by blast
  then have "{x. \<forall>a \<in> set actions. hasWildcard pfx perms a \<or> x \<in> set (idsOf pfx perms a)} = {}"
    by auto
  moreover have "\<not> (\<forall>a \<in> set actions. hasWildcard pfx perms a)"
    using a by blast
  ultimately show ?thesis
    using None by (simp add: Filter_guarded [OF acc pm perms] denyQuery_def)
next
  case (Some st)
  obtain w r where st: "st = (w, r)" by (cases st)
  let ?n = "length actions"
  from Some st have loop: "actionsLoop pfx perms actions 0 [] = Some (w, r)" by simp
  have w: "w = length (filter (hasWildcard pfx perms) actions)"
    using actionsLoop_wildcards [OF loop] by simp
  have t: "tallyOf r x
             = length (filter (\<lambda>a. \<not> hasWildcard pfx perms a \<and> x \<in> set (idsOf pfx perms a)) actions)"
    for x
    using actionsLoop_tally [OF loop, of x] by (simp add: tallyOf_def)
  have wf: "wellFormed r"
    using actionsLoop_wellFormed [OF loop] by (simp add: wellFormed_def)
  have all: "(w = ?n) = (\<forall>a \<in> set actions. hasWildcard pfx perms a)"
    unfolding w by (rule length_filter_all)
  show ?thesis
  proof (cases "w = ?n")
    case True
    with all loop show ?thesis
      by (simp add: Filter_guarded [OF acc pm perms] allowAllQuery_def)
  next
    case False
    have wle: "w \<le> ?n" unfolding w by simp
    have sel: "set (map fst (filter (\<lambda>(i, c). c + w = ?n) (order r)))
                 = {x. \<forall>a \<in> set actions. hasWildcard pfx perms a \<or> x \<in> set (idsOf pfx perms a)}"
    proof -
      have "(0 < tallyOf r x \<and> tallyOf r x + w = ?n)
              = (\<forall>a \<in> set actions. hasWildcard pfx perms a \<or> x \<in> set (idsOf pfx perms a))" for x
      proof -
        have "(0 < tallyOf r x \<and> tallyOf r x + w = ?n) = (w + tallyOf r x = ?n)"
          using False wle by auto
        also have "\<dots> = (length (filter (\<lambda>a. hasWildcard pfx perms a
                               \<or> x \<in> set (idsOf pfx perms a)) actions) = ?n)"
          unfolding w t length_filter_split ..
        also have "\<dots> = (\<forall>a \<in> set actions. hasWildcard pfx perms a \<or> x \<in> set (idsOf pfx perms a))"
          by (rule length_filter_all)
        finally show ?thesis .
      qed
      then show ?thesis unfolding select_set [OF ord wf] by simp
    qed
    have "set (Args (fst (Filter acceptList order (Some u) sqlID pfx actions)))
            = set (map fst (filter (\<lambda>(i, c). c + w = ?n) (order r)))"
      using False loop
      by (simp add: Filter_guarded [OF acc pm perms] Let_def denyQuery_def del: set_map)
    with sel False all show ?thesis by simp
  qed
qed

lemma Filter_selects_all:
  assumes acc: "sqlID \<in> set acceptList"
    and pm: "Permissions u = Some pm" and perms: "pm (OrgID u) = Some perms"
    and ord: "\<And>xs. mset (order xs) = mset xs"
    and loop: "actionsLoop pfx perms actions 0 [] = Some (w, r)"
    and w: "w \<noteq> length actions" and r: "r \<noteq> []"
    and every: "list_all (\<lambda>e. snd e + w = length actions) r"
  shows "Filter acceptList order (Some u) sqlID pfx actions
           = (\<lparr>Where = '' '' @ sqlID @ '' IN '' @ ''(?'' @ Repeat '',?'' (length r - 1) @ '')'',
               Args = map fst (order r)\<rparr>, None)"
proof -
  have s: "set (order r) = set r" by (rule order_set [OF ord])
  have f: "filter (\<lambda>(i, count). count + w = length actions) (order r) = order r"
    unfolding filter_id_conv s using every by (auto simp: list_all_iff)
  have len: "length (order r) = length r"
    by (rule mset_eq_length [OF ord])
  from r len have ne: "order r \<noteq> []" by auto
  show ?thesis
    unfolding Filter_guarded [OF acc pm perms] loop
    using w ne by (simp add: Let_def f len)
qed

section \<open>The text of the role-membership join\<close>

lemma usFree_append:
  "usFree p (xs @ ys) = (usFree p xs \<and> usFree (if xs = [] then p else last xs = CHR ''u'') ys)"
  by (induction xs arbitrary: p) auto

lemma sublist_user_role_not_usFree:
  assumes "sublist ''user_role'' s"
  shows "\<not> usFree p s"
proof -
  from assms obtain ps ss where "s = ps @ ''user_role'' @ ss"
    by (auto simp: sublist_def)
  then show ?thesis by (simp add: usFree_append)
qed

lemma usFree_Repeat: "usFree False (Repeat '', ?'' n @ ys) = usFree False ys"
  by (induction n) (simp_all add: Repeat_def)

lemma teamRolesFilter_sql:
  "fst (teamRolesFilter orgID teamIDs) =
     (if teamIDs = [] then []
      else [CHR 0x0A, CHR 0x09] @ ''SELECT tr.role_id FROM team_role as tr''
           @ [CHR 0x0A, CHR 0x09] @ ''WHERE '' @ ''tr.team_id IN(?''
           @ Repeat '', ?'' (length teamIDs - 1) @ '') AND tr.org_id = ?''
           @ [CHR 0x0A, CHR 0x09])"
  by (simp add: teamRolesFilter_def TeamRolesFilderCondition_def)

lemma builtinRolesFilter_sql:
  "fst (builtinRolesFilter GlobalOrgID orgID roles) =
     (if roles = [] then []
      else [CHR 0x0A, CHR 0x09] @ ''SELECT br.role_id FROM builtin_role AS br''
           @ [CHR 0x0A, CHR 0x09] @ ''WHERE '' @ ''br.role IN (?''
           @ Repeat '', ?'' (length roles - 1) @ '') AND (br.org_id = ? OR br.org_id = ?)''
           @ [CHR 0x0A, CHR 0x09])"
  by (simp add: builtinRolesFilter_def BuiltinRolesFilterCondition_def)

lemma userRolesFilter_zero: "userRolesFilter GlobalOrgID orgID 0 = ('''', [])"
  by (simp add: userRolesFilter_def UserRolesFilterCondition_def)

lemma UserRolesFilter_zero:
  "UserRolesFilter GlobalOrgID orgID 0 teamIDs roles =
     (''INNER JOIN ('' @ fst (teamRolesFilter orgID teamIDs)
        @ (if fst (teamRolesFilter orgID teamIDs) \<noteq> []
              \<and> fst (builtinRolesFilter GlobalOrgID orgID roles) \<noteq> [] then '' OR '' else [])
        @ fst (builtinRolesFilter GlobalOrgID orgID roles)
        @ '') as all_role ON role.id = all_role.role_id'',
      snd (teamRolesFilter orgID teamIDs) @ snd (builtinRolesFilter GlobalOrgID orgID roles))"
proof -
  have t: "fst (teamRolesFilter orgID teamIDs) = [] \<Longrightarrow> snd (teamRolesFilter orgID teamIDs) = []"
    by (simp add: teamRolesFilter_def TeamRolesFilderCondition_def split: if_splits)
  have b: "fst (builtinRolesFilter GlobalOrgID orgID roles) = []
             \<Longrightarrow> snd (builtinRolesFilter GlobalOrgID orgID roles) = []"
    by (simp add: builtinRolesFilter_def BuiltinRolesFilterCondition_def split: if_splits)
  show ?thesis
    using t b by (simp add: UserRolesFilter_def userRolesFilter_zero Let_def case_prod_beta)
qed

lemma UserRolesFilter_zero_usFree:
  "usFree False (fst (UserRolesFilter GlobalOrgID orgID 0 teamIDs roles))"
  by (simp add: UserRolesFilter_zero teamRolesFilter_sql builtinRolesFilter_sql usFree_Repeat)

lemma UserRolesFilter_user_channel:
  assumes "userID \<noteq> 0"
  shows "sublist ''user_role'' (fst (UserRolesFilter GlobalOrgID orgID userID teamIDs roles))"
proof -
  let ?u = "fst (userRolesFilter GlobalOrgID orgID userID)"
  have u: "?u = ([CHR 0x0A, CHR 0x09] @ ''SELECT ur.role_id'' @ [CHR 0x0A, CHR 0x09] @ ''FROM '')
                @ ''user_role'' @ ('' AS ur'' @ [CHR 0x0A, CHR 0x09] @ ''WHERE ''
                @ ''ur.user_id = ? AND (ur.org_id = ? OR ur.org_id = 0)'' @ [CHR 0x0A, CHR 0x09])"
    using assms by (simp add: userRolesFilter_def UserRolesFilterCondition_def)
  have 1: "sublist ''user_role'' ?u"
    unfolding u by (rule sublist_appendI)
  have ne: "?u \<noteq> []" unfolding u by simp
  have "fst (UserRolesFilter GlobalOrgID orgID userID teamIDs roles)
          = ''INNER JOIN ('' @ ?u
            @ ((if fst (teamRolesFilter orgID teamIDs) \<noteq> []
                then '' OR '' @ fst (teamRolesFilter orgID teamIDs) else [])
               @ (if fst (builtinRolesFilter GlobalOrgID orgID roles) \<noteq> []
                  then '' OR '' @ fst (builtinRolesFilter GlobalOrgID orgID roles) else [])
               @ '') as all_role ON role.id = all_role.role_id'')"
    using ne by (simp add: UserRolesFilter_def Let_def case_prod_beta)
  then have 2: "sublist ?u (fst (UserRolesFilter GlobalOrgID orgID userID teamIDs roles))"
    by (simp only: sublist_appendI)
  from 1 2 show ?thesis by (rule sublist_order.order.trans)
qed

section \<open>The claims\<close>

text \<open>
  C1. Whatever the user, the prefix and the actions, a column identifier that is not in the
  accept list makes \<open>Filter\<close> return the deny-all filter (\<open>Where\<close> \<^verbatim>\<open>" 1 = 0"\<close>, no arguments)
  together with a non-nil error.
\<close>

theorem Filter_rejects_unlisted_column:
  assumes "sqlID \<notin> set acceptList"
  shows "fst (Filter acceptList order user sqlID pfx actions) = \<lparr>Where = '' 1 = 0'', Args = []\<rparr>
       \<and> snd (Filter acceptList order user sqlID pfx actions) \<noteq> None"
  using assms by (simp add: Filter_def denyQuery_def)

theorem Filter_rejects_unlisted_column_witness:
  "fst (Filter sqlIDAcceptList rev
          (Some (userWithScopes [(''teams:read'', [''teams:*''])]))
          ''t.id; DROP TABLE team'' ''teams:id:'' [''teams:read''])
     = \<lparr>Where = '' 1 = 0'', Args = []\<rparr>
   \<and> snd (Filter sqlIDAcceptList rev
          (Some (userWithScopes [(''teams:read'', [''teams:*''])]))
          ''t.id; DROP TABLE team'' ''teams:id:'' [''teams:read'']) \<noteq> None"
proof -
  have "''t.id; DROP TABLE team'' \<notin> set sqlIDAcceptList"
    by (simp add: sqlIDAcceptList_def)
  then show ?thesis by (rule Filter_rejects_unlisted_column)
qed

text \<open>
  C2. With an accept-listed column (and a user that holds a permission map for their
  organisation, so that the actions are resolved at all): as soon as one requested action
  resolves through \<open>ParseScopes\<close> to no identifier and no wildcard, \<open>Filter\<close> returns the
  deny-all filter with a nil error, whatever the other actions grant.
\<close>

theorem Filter_empty_action_denies:
  assumes "sqlID \<in> set acceptList" and "Permissions u = Some pm" and "pm (OrgID u) = Some perms"
    and "a \<in> set actions" and "ParseScopes pfx (scopesOf perms a) = ([], False)"
  shows "Filter acceptList order (Some u) sqlID pfx actions
           = (\<lparr>Where = '' 1 = 0'', Args = []\<rparr>, None)"
proof -
  from assms(5) have "\<not> hasWildcard pfx perms a \<and> idsOf pfx perms a = []"
    by (simp add: hasWildcard_def idsOf_def)
  with assms(4) have "actionsLoop pfx perms actions 0 [] = None"
    unfolding actionsLoop_None by blast
  then show ?thesis
    by (simp add: Filter_guarded [OF assms(1-3)] denyQuery_def)
qed

theorem Filter_empty_action_denies_witness:
  "Filter sqlIDAcceptList rev
     (Some (userWithScopes [(''teams:read'', [''teams:id:5'']),
                            (''teams:write'', [''dashboards:uid:abc''])]))
     ''t.id'' ''teams:id:'' [''teams:read'', ''teams:write'']
   = (\<lparr>Where = '' 1 = 0'', Args = []\<rparr>, None)"
proof (rule Filter_empty_action_denies)
  let ?perms = "map_of [(''teams:read'', [''teams:id:5'']),
                        (''teams:write'', [''dashboards:uid:abc''])]"
  show "''t.id'' \<in> set sqlIDAcceptList" by (simp add: sqlIDAcceptList_def)
  show "Permissions (userWithScopes [(''teams:read'', [''teams:id:5'']),
          (''teams:write'', [''dashboards:uid:abc''])]) = Some [1 \<mapsto> ?perms]"
    by (simp add: userWithScopes_def)
  show "[1 \<mapsto> ?perms] (OrgID (userWithScopes [(''teams:read'', [''teams:id:5'']),
          (''teams:write'', [''dashboards:uid:abc''])])) = Some ?perms"
    by (simp add: userWithScopes_def)
  show "''teams:write'' \<in> set [''teams:read'', ''teams:write'']" by simp
  show "ParseScopes ''teams:id:'' (scopesOf ?perms ''teams:write'') = ([], False)"
    by (simp add: eval_defs)
qed

text \<open>
  C3. In a call of \<open>Filter\<close> that passes the two guards, with two actions of which the first
  resolves under the prefix to the identifiers \<open>{1, 2, 3}\<close> and the second to \<open>{2, 3, 4}\<close>,
  neither to a wildcard, the bound arguments of the returned filter are exactly \<open>{2, 3}\<close>.
  In general, for any list of actions, an identifier among the bound arguments is granted by
  every requested action: each action resolves to a wildcard or to a set that holds it.
  Go does not fix the order in which the tally is visited: the statement holds for every
  order, a rearrangement of the entries.
\<close>

theorem Filter_intersection:
  assumes "sqlID \<in> set acceptList"
    and "Permissions u = Some pm" and "pm (OrgID u) = Some perms"
    and "\<And>xs. mset (order xs) = mset xs"
  shows "(ParseScopes pfx (scopesOf perms a) = (idsA, False)
            \<and> set idsA = {AnyInt64 1, AnyInt64 2, AnyInt64 3}
            \<and> ParseScopes pfx (scopesOf perms b) = (idsB, False)
            \<and> set idsB = {AnyInt64 2, AnyInt64 3, AnyInt64 4}
          \<longrightarrow> set (Args (fst (Filter acceptList order (Some u) sqlID pfx [a, b])))
                = {AnyInt64 2, AnyInt64 3})
       \<and> (\<forall>x \<in> set (Args (fst (Filter acceptList order (Some u) sqlID pfx actions))).
            \<forall>c \<in> set actions.
              snd (ParseScopes pfx (scopesOf perms c))
              \<or> x \<in> set (fst (ParseScopes pfx (scopesOf perms c))))"
proof (intro conjI impI)
  assume h: "ParseScopes pfx (scopesOf perms a) = (idsA, False)
            \<and> set idsA = {AnyInt64 1, AnyInt64 2, AnyInt64 3}
            \<and> ParseScopes pfx (scopesOf perms b) = (idsB, False)
            \<and> set idsB = {AnyInt64 2, AnyInt64 3, AnyInt64 4}"
  then have a: "\<not> hasWildcard pfx perms a" "set (idsOf pfx perms a) = {AnyInt64 1, AnyInt64 2, AnyInt64 3}"
    and b: "\<not> hasWildcard pfx perms b" "set (idsOf pfx perms b) = {AnyInt64 2, AnyInt64 3, AnyInt64 4}"
    by (simp_all add: hasWildcard_def idsOf_def)
  have "set (Args (fst (Filter acceptList order (Some u) sqlID pfx [a, b])))
          = {x. x \<in> set (idsOf pfx perms a) \<and> x \<in> set (idsOf pfx perms b)}"
    unfolding Filter_args_set [OF assms] using a(1) b(1) by simp
  also have "\<dots> = {AnyInt64 2, AnyInt64 3}"
    unfolding a(2) b(2) by auto
  finally show "set (Args (fst (Filter acceptList order (Some u) sqlID pfx [a, b])))
                  = {AnyInt64 2, AnyInt64 3}" .
next
  show "\<forall>x \<in> set (Args (fst (Filter acceptList order (Some u) sqlID pfx actions))).
          \<forall>c \<in> set actions.
            snd (ParseScopes pfx (scopesOf perms c))
            \<or> x \<in> set (fst (ParseScopes pfx (scopesOf perms c)))"
    unfolding Filter_args_set [OF assms]
    by (simp add: hasWildcard_def idsOf_def split: if_splits)
qed

theorem Filter_intersection_witness:
  "set (Args (fst (Filter sqlIDAcceptList rev
     (Some (userWithScopes
        [(''teams:read'', [''teams:id:1'', ''teams:id:2'', ''teams:id:3'']),
         (''teams:write'', [''teams:id:2'', ''teams:id:3'', ''teams:id:4''])]))
     ''t.id'' ''teams:id:'' [''teams:read'', ''teams:write''])))
   = {AnyInt64 2, AnyInt64 3}"
proof -
  let ?scopes = "[(''teams:read'', [''teams:id:1'', ''teams:id:2'', ''teams:id:3'']),
                  (''teams:write'', [''teams:id:2'', ''teams:id:3'', ''teams:id:4''])]"
  have acc: "''t.id'' \<in> set sqlIDAcceptList" by (simp add: sqlIDAcceptList_def)
  have pm: "Permissions (userWithScopes ?scopes) = Some [1 \<mapsto> map_of ?scopes]"
    by (simp add: userWithScopes_def)
  have perms: "[1 \<mapsto> map_of ?scopes] (OrgID (userWithScopes ?scopes)) = Some (map_of ?scopes)"
    by (simp add: userWithScopes_def)
  have ord: "\<And>xs :: (any \<times> nat) list. mset (rev xs) = mset xs" by simp
  have a: "ParseScopes ''teams:id:'' (scopesOf (map_of ?scopes) ''teams:read'')
             = ([AnyInt64 1, AnyInt64 2, AnyInt64 3], False)"
    by (simp add: eval_defs)
  have b: "ParseScopes ''teams:id:'' (scopesOf (map_of ?scopes) ''teams:write'')
             = ([AnyInt64 2, AnyInt64 3, AnyInt64 4], False)"
    by (simp add: eval_defs)
  have "ParseScopes ''teams:id:'' (scopesOf (map_of ?scopes) ''teams:read'')
            = ([AnyInt64 1, AnyInt64 2, AnyInt64 3], False)
          \<and> set [AnyInt64 1, AnyInt64 2, AnyInt64 3] = {AnyInt64 1, AnyInt64 2, AnyInt64 3}
          \<and> ParseScopes ''teams:id:'' (scopesOf (map_of ?scopes) ''teams:write'')
            = ([AnyInt64 2, AnyInt64 3, AnyInt64 4], False)
          \<and> set [AnyInt64 2, AnyInt64 3, AnyInt64 4] = {AnyInt64 2, AnyInt64 3, AnyInt64 4}"
    by (intro conjI a b) simp_all
  with Filter_intersection [where a = "''teams:read''" and b = "''teams:write''"
        and pfx = "''teams:id:''" and idsA = "[AnyInt64 1, AnyInt64 2, AnyInt64 3]"
        and idsB = "[AnyInt64 2, AnyInt64 3, AnyInt64 4]", OF acc pm perms ord, THEN conjunct1]
  show ?thesis by (rule mp)
qed

text \<open>
  C4. In a call of \<open>Filter\<close> that passes the two guards, with two actions of which one
  resolves to a wildcard and the other to the identifier set \<open>{5}\<close>, the bound arguments of
  the returned filter are exactly \<open>{5}\<close>, in either order of the two actions. In general a
  wildcarded action counts for every identifier and brings none of its own: put in front
  of any list of actions it leaves the bound arguments as they are.
\<close>

theorem Filter_wildcard_grants_all:
  assumes "sqlID \<in> set acceptList"
    and "Permissions u = Some pm" and "pm (OrgID u) = Some perms"
    and "\<And>xs. mset (order xs) = mset xs"
  shows "(snd (ParseScopes pfx (scopesOf perms a))
            \<and> ParseScopes pfx (scopesOf perms b) = (idsB, False) \<and> set idsB = {AnyInt64 5}
          \<longrightarrow> set (Args (fst (Filter acceptList order (Some u) sqlID pfx [a, b]))) = {AnyInt64 5}
            \<and> set (Args (fst (Filter acceptList order (Some u) sqlID pfx [b, a]))) = {AnyInt64 5})
       \<and> (snd (ParseScopes pfx (scopesOf perms a))
          \<longrightarrow> set (Args (fst (Filter acceptList order (Some u) sqlID pfx (a # actions))))
                = set (Args (fst (Filter acceptList order (Some u) sqlID pfx actions))))"
proof (intro conjI impI)
  assume h: "snd (ParseScopes pfx (scopesOf perms a))
            \<and> ParseScopes pfx (scopesOf perms b) = (idsB, False) \<and> set idsB = {AnyInt64 5}"
  then have a: "hasWildcard pfx perms a"
    and b: "\<not> hasWildcard pfx perms b" "set (idsOf pfx perms b) = {AnyInt64 5}"
    by (simp_all add: hasWildcard_def idsOf_def)
  show "set (Args (fst (Filter acceptList order (Some u) sqlID pfx [a, b]))) = {AnyInt64 5}"
    unfolding Filter_args_set [OF assms] using a b by auto
  show "set (Args (fst (Filter acceptList order (Some u) sqlID pfx [b, a]))) = {AnyInt64 5}"
    unfolding Filter_args_set [OF assms] using a b by auto
next
  assume "snd (ParseScopes pfx (scopesOf perms a))"
  then have a: "hasWildcard pfx perms a" by (simp add: hasWildcard_def)
  show "set (Args (fst (Filter acceptList order (Some u) sqlID pfx (a # actions))))
          = set (Args (fst (Filter acceptList order (Some u) sqlID pfx actions)))"
    unfolding Filter_args_set [OF assms] using a by simp
qed

theorem Filter_wildcard_grants_all_witness:
  "set (Args (fst (Filter sqlIDAcceptList rev
     (Some (userWithScopes
        [(''teams:read'', [''teams:*'']), (''teams:write'', [''teams:id:5''])]))
     ''t.id'' ''teams:id:'' [''teams:read'', ''teams:write''])))
   = {AnyInt64 5}
   \<and> set (Args (fst (Filter sqlIDAcceptList rev
     (Some (userWithScopes
        [(''teams:read'', [''teams:*'']), (''teams:write'', [''teams:id:5''])]))
     ''t.id'' ''teams:id:'' [''teams:write'', ''teams:read''])))
   = {AnyInt64 5}"
proof -
  let ?scopes = "[(''teams:read'', [''teams:*'']), (''teams:write'', [''teams:id:5''])]"
  have acc: "''t.id'' \<in> set sqlIDAcceptList" by (simp add: sqlIDAcceptList_def)
  have pm: "Permissions (userWithScopes ?scopes) = Some [1 \<mapsto> map_of ?scopes]"
    by (simp add: userWithScopes_def)
  have perms: "[1 \<mapsto> map_of ?scopes] (OrgID (userWithScopes ?scopes)) = Some (map_of ?scopes)"
    by (simp add: userWithScopes_def)
  have ord: "\<And>xs :: (any \<times> nat) list. mset (rev xs) = mset xs" by simp
  have a: "snd (ParseScopes ''teams:id:'' (scopesOf (map_of ?scopes) ''teams:read''))"
    by (simp add: eval_defs)
  have b: "ParseScopes ''teams:id:'' (scopesOf (map_of ?scopes) ''teams:write'')
             = ([AnyInt64 5], False)"
    by (simp add: eval_defs)
  have "snd (ParseScopes ''teams:id:'' (scopesOf (map_of ?scopes) ''teams:read''))
          \<and> ParseScopes ''teams:id:'' (scopesOf (map_of ?scopes) ''teams:write'')
            = ([AnyInt64 5], False)
          \<and> set [AnyInt64 5] = {AnyInt64 5}"
    by (intro conjI a b) simp_all
  with Filter_wildcard_grants_all [where a = "''teams:read''" and b = "''teams:write''"
        and pfx = "''teams:id:''" and idsB = "[AnyInt64 5]", OF acc pm perms ord, THEN conjunct1]
  show ?thesis by (rule mp)
qed

text \<open>
  C5. With an accept-listed column and a user whose scopes hold, for every requested action,
  a wildcard of the prefix, \<open>Filter\<close> returns the allow-all filter, \<open>Where\<close> \<^verbatim>\<open>" 1 = 1"\<close> with no
  bound argument (not an IN-list), and a nil error.
\<close>

theorem Filter_all_wildcards_allows_all:
  assumes "sqlID \<in> set acceptList" and "Permissions u = Some pm" and "pm (OrgID u) = Some perms"
    and "\<forall>a \<in> set actions. snd (ParseScopes pfx (scopesOf perms a))"
  shows "Filter acceptList order (Some u) sqlID pfx actions
           = (\<lparr>Where = '' 1 = 1'', Args = []\<rparr>, None)"
proof -
  from assms(4) have "\<forall>a \<in> set actions. hasWildcard pfx perms a"
    by (simp add: hasWildcard_def)
  then have "actionsLoop pfx perms actions 0 [] = Some (0 + length actions, [])"
    by (rule actionsLoop_all_wildcards)
  then show ?thesis
    by (simp add: Filter_guarded [OF assms(1-3)] allowAllQuery_def)
qed

theorem Filter_all_wildcards_allows_all_witness:
  "Filter sqlIDAcceptList rev
     (Some (userWithScopes [(''teams:read'', [''teams:*'']),
                            (''teams:write'', [''teams:id:3'', ''teams:id:*''])]))
     ''t.id'' ''teams:id:'' [''teams:read'', ''teams:write'']
   = (\<lparr>Where = '' 1 = 1'', Args = []\<rparr>, None)"
proof (rule Filter_all_wildcards_allows_all)
  let ?perms = "map_of [(''teams:read'', [''teams:*'']),
                        (''teams:write'', [''teams:id:3'', ''teams:id:*''])]"
  show "''t.id'' \<in> set sqlIDAcceptList" by (simp add: sqlIDAcceptList_def)
  show "Permissions (userWithScopes [(''teams:read'', [''teams:*'']),
          (''teams:write'', [''teams:id:3'', ''teams:id:*''])]) = Some [1 \<mapsto> ?perms]"
    by (simp add: userWithScopes_def)
  show "[1 \<mapsto> ?perms] (OrgID (userWithScopes [(''teams:read'', [''teams:*'']),
          (''teams:write'', [''teams:id:3'', ''teams:id:*''])])) = Some ?perms"
    by (simp add: userWithScopes_def)
  show "\<forall>a \<in> set [''teams:read'', ''teams:write''].
          snd (ParseScopes ''teams:id:'' (scopesOf ?perms a))"
    by (simp add: eval_defs)
qed

text \<open>
  C6. With an accept-listed column, a user that is not nil and has a permission map for
  their organisation, and no action at all, \<open>Filter\<close> returns the allow-all filter
  (\<^verbatim>\<open>" 1 = 1"\<close>, no arguments) with a nil error.
\<close>

theorem Filter_no_actions_allows_all:
  assumes "sqlID \<in> set acceptList" and "Permissions u = Some pm" and "pm (OrgID u) = Some perms"
  shows "Filter acceptList order (Some u) sqlID pfx [] = (\<lparr>Where = '' 1 = 1'', Args = []\<rparr>, None)"
  by (simp add: Filter_guarded [OF assms] allowAllQuery_def)

theorem Filter_no_actions_allows_all_witness:
  "Filter sqlIDAcceptList rev (Some (userWithScopes [])) ''t.id'' ''teams:id:'' []
     = (\<lparr>Where = '' 1 = 1'', Args = []\<rparr>, None)"
proof (rule Filter_no_actions_allows_all)
  show "''t.id'' \<in> set sqlIDAcceptList" by (simp add: sqlIDAcceptList_def)
  show "Permissions (userWithScopes []) = Some [1 \<mapsto> map_of []]"
    by (simp add: userWithScopes_def)
  show "[1 \<mapsto> map_of []] (OrgID (userWithScopes [])) = Some (map_of [])"
    by (simp add: userWithScopes_def)
qed

text \<open>
  C7. Whatever the column, the prefix and the actions: when the user is nil, or the user's
  permission map is nil, or the map has no entry for the user's organisation, \<open>Filter\<close>
  returns the deny-all filter together with a non-nil error.
\<close>

theorem Filter_rejects_missing_permissions:
  assumes "user = None
         \<or> (\<exists>u. user = Some u \<and> Permissions u = None)
         \<or> (\<exists>u pm. user = Some u \<and> Permissions u = Some pm \<and> pm (OrgID u) = None)"
  shows "fst (Filter acceptList order user sqlID pfx actions) = \<lparr>Where = '' 1 = 0'', Args = []\<rparr>
       \<and> snd (Filter acceptList order user sqlID pfx actions) \<noteq> None"
  using assms by (auto simp: Filter_def denyQuery_def)

theorem Filter_rejects_missing_permissions_witness:
  "fst (Filter sqlIDAcceptList rev None ''t.id'' ''teams:id:'' [''teams:read''])
     = \<lparr>Where = '' 1 = 0'', Args = []\<rparr>
   \<and> snd (Filter sqlIDAcceptList rev None ''t.id'' ''teams:id:'' [''teams:read'']) \<noteq> None
   \<and> fst (Filter sqlIDAcceptList rev (Some \<lparr>OrgID = 1, Permissions = None\<rparr>)
          ''t.id'' ''teams:id:'' [''teams:read''])
     = \<lparr>Where = '' 1 = 0'', Args = []\<rparr>
   \<and> snd (Filter sqlIDAcceptList rev (Some \<lparr>OrgID = 1, Permissions = None\<rparr>)
          ''t.id'' ''teams:id:'' [''teams:read'']) \<noteq> None
   \<and> fst (Filter sqlIDAcceptList rev
          (Some \<lparr>OrgID = 2, Permissions = Some [1 \<mapsto> [''teams:read'' \<mapsto> [''teams:*'']]]\<rparr>)
          ''t.id'' ''teams:id:'' [''teams:read''])
     = \<lparr>Where = '' 1 = 0'', Args = []\<rparr>
   \<and> snd (Filter sqlIDAcceptList rev
          (Some \<lparr>OrgID = 2, Permissions = Some [1 \<mapsto> [''teams:read'' \<mapsto> [''teams:*'']]]\<rparr>)
          ''t.id'' ''teams:id:'' [''teams:read'']) \<noteq> None"
proof -
  let ?u = "\<lparr>OrgID = 1, Permissions = None\<rparr>"
  let ?v = "\<lparr>OrgID = 2, Permissions = Some [1 \<mapsto> [''teams:read'' \<mapsto> [''teams:*'']]]\<rparr>"
  have 1: "(None :: SignedInUser option) = None
          \<or> (\<exists>u. (None :: SignedInUser option) = Some u \<and> Permissions u = None)
          \<or> (\<exists>u pm. (None :: SignedInUser option) = Some u \<and> Permissions u = Some pm
                \<and> pm (OrgID u) = None)"
    by simp
  have 2: "Some ?u = None
          \<or> (\<exists>u. Some ?u = Some u \<and> Permissions u = None)
          \<or> (\<exists>u pm. Some ?u = Some u \<and> Permissions u = Some pm \<and> pm (OrgID u) = None)"
    by simp
  have 3: "Some ?v = None
          \<or> (\<exists>u. Some ?v = Some u \<and> Permissions u = None)
          \<or> (\<exists>u pm. Some ?v = Some u \<and> Permissions u = Some pm \<and> pm (OrgID u) = None)"
    by simp
  from Filter_rejects_missing_permissions [OF 1] Filter_rejects_missing_permissions [OF 2]
    Filter_rejects_missing_permissions [OF 3]
  show ?thesis by blast
qed

text \<open>
  C8. Whatever the organisation, the team ids and the built-in roles, with the user id \<open>0\<close> the
  direct user-role channel of \<open>UserRolesFilter\<close> brings no clause and no bound argument: its
  condition and its subquery are the empty string with no argument, the text of the returned
  join nowhere holds \<^verbatim>\<open>user_role\<close>, and the bound arguments are those of the team channel
  followed by those of the built-in channel, also when these two are populated.
\<close>

theorem UserRolesFilter_anonymous_user:
  "UserRolesFilterCondition GlobalOrgID orgID 0 = ('''', [])
   \<and> userRolesFilter GlobalOrgID orgID 0 = ('''', [])
   \<and> \<not> sublist ''user_role'' (fst (UserRolesFilter GlobalOrgID orgID 0 teamIDs roles))
   \<and> snd (UserRolesFilter GlobalOrgID orgID 0 teamIDs roles)
       = snd (teamRolesFilter orgID teamIDs) @ snd (builtinRolesFilter GlobalOrgID orgID roles)"
proof (intro conjI)
  show "UserRolesFilterCondition GlobalOrgID orgID 0 = ('''', [])"
    by (simp add: UserRolesFilterCondition_def)
  show "userRolesFilter GlobalOrgID orgID 0 = ('''', [])"
    by (rule userRolesFilter_zero)
  show "\<not> sublist ''user_role'' (fst (UserRolesFilter GlobalOrgID orgID 0 teamIDs roles))"
    using UserRolesFilter_zero_usFree sublist_user_role_not_usFree by blast
  show "snd (UserRolesFilter GlobalOrgID orgID 0 teamIDs roles)
          = snd (teamRolesFilter orgID teamIDs) @ snd (builtinRolesFilter GlobalOrgID orgID roles)"
    by (simp add: UserRolesFilter_zero)
qed

theorem UserRolesFilter_anonymous_user_witness:
  "\<not> sublist ''user_role'' (fst (UserRolesFilter (AnyInt64 0) 1 0 [3, 4] [''Viewer'']))
   \<and> snd (UserRolesFilter (AnyInt64 0) 1 0 [3, 4] [''Viewer''])
       = [AnyInt64 3, AnyInt64 4, AnyInt64 1, AnyString ''Viewer'', AnyInt64 1, AnyInt64 0]"
  using UserRolesFilter_anonymous_user [of "AnyInt64 0" 1 "[3, 4]" "[''Viewer'']"]
  by (simp add: teamRolesFilter_def TeamRolesFilderCondition_def builtinRolesFilter_def
      BuiltinRolesFilterCondition_def)

text \<open>
  C9, as stated, fails: the prefix \<^verbatim>\<open>dashboards:uid:\<close> does not end with \<^verbatim>\<open>:id:\<close>, so
  \<open>ParseScopes\<close> takes the string parser, which cannot fail, and the identifier
  \<^verbatim>\<open>notanumber\<close> is kept: the result is the two strings \<^verbatim>\<open>"7"\<close> and \<^verbatim>\<open>"notanumber"\<close>, not the
  integer \<open>7\<close> alone.
\<close>

theorem ParseScopes_uid_prefix_counterexample:
  "ParseScopes ''dashboards:uid:''
     [''dashboards:uid:7'', ''dashboards:uid:notanumber'', ''other:uid:9'']
   = ([AnyString ''7'', AnyString ''notanumber''], False)
   \<and> set (fst (ParseScopes ''dashboards:uid:''
       [''dashboards:uid:7'', ''dashboards:uid:notanumber'', ''other:uid:9''])) \<noteq> {AnyInt64 7}"
  by (simp add: eval_defs)

text \<open>
  C9, amended. Under the prefix \<^verbatim>\<open>dashboards:id:\<close>, which selects the integer parser,
  \<^verbatim>\<open>ParseScopes("dashboards:id:", ["dashboards:id:7", "dashboards:id:notanumber", "other:id:9"])\<close>
  yields the identifier set \<open>{7}\<close> and no wildcard: the identifier that is not a number and
  the scope of another prefix are left out without an error. Under the prefix
  \<^verbatim>\<open>dashboards:uid:\<close> of the claim the identifiers are strings, the scope of another prefix is
  left out, and the result is \<^verbatim>\<open>{"7", "notanumber"}\<close> with no wildcard.
\<close>

theorem ParseScopes_integer_mode:
  "ParseScopes ''dashboards:id:''
     [''dashboards:id:7'', ''dashboards:id:notanumber'', ''other:id:9'']
   = ([AnyInt64 7], False)
   \<and> ParseScopes ''dashboards:uid:''
     [''dashboards:uid:7'', ''dashboards:uid:notanumber'', ''other:uid:9'']
   = ([AnyString ''7'', AnyString ''notanumber''], False)"
  by (simp add: eval_defs)

theorem ParseScopes_integer_mode_witness:
  "set (fst (ParseScopes ''dashboards:id:''
       [''dashboards:id:7'', ''dashboards:id:notanumber'', ''other:id:9''])) = {AnyInt64 7}
   \<and> snd (ParseScopes ''dashboards:id:''
       [''dashboards:id:7'', ''dashboards:id:notanumber'', ''other:id:9'']) = False"
  using ParseScopes_integer_mode by simp

text \<open>
  C10. For a user whose scopes for the action \<^verbatim>\<open>teams:read\<close> in their organisation are
  \<^verbatim>\<open>["teams:id:5", "teams:id:9"]\<close>, the call \<^verbatim>\<open>Filter(user, "t.id", "teams:id:", "teams:read")\<close>
  returns a nil error and the filter whose \<open>Where\<close> is \<^verbatim>\<open>" t.id IN (?,?)"\<close> and whose two bound
  arguments are, as a set, the 64-bit integers \<open>5\<close> and \<open>9\<close>. The accept list is any one that
  holds \<^verbatim>\<open>t.id\<close>, as the initial one does, and the order in which the tally is visited is
  any rearrangement.
\<close>

theorem Filter_teams_end_to_end:
  assumes "''t.id'' \<in> set acceptList"
    and "Permissions u = Some pm" and "pm (OrgID u) = Some perms"
    and "perms ''teams:read'' = Some [''teams:id:5'', ''teams:id:9'']"
    and "\<And>xs. mset (order xs) = mset xs"
  shows "snd (Filter acceptList order (Some u) ''t.id'' ''teams:id:'' [''teams:read'']) = None
       \<and> Where (fst (Filter acceptList order (Some u) ''t.id'' ''teams:id:'' [''teams:read'']))
           = '' t.id IN (?,?)''
       \<and> set (Args (fst (Filter acceptList order (Some u) ''t.id'' ''teams:id:'' [''teams:read''])))
           = {AnyInt64 5, AnyInt64 9}
       \<and> length (Args (fst (Filter acceptList order (Some u) ''t.id'' ''teams:id:''
            [''teams:read'']))) = 2"
proof -
  let ?r = "[(AnyInt64 5, 1 :: nat), (AnyInt64 9, 1)]"
  have loop: "actionsLoop ''teams:id:'' perms [''teams:read''] 0 [] = Some (0, ?r)"
    using assms(4) by (simp add: eval_defs)
  have "Filter acceptList order (Some u) ''t.id'' ''teams:id:'' [''teams:read'']
          = (\<lparr>Where = '' '' @ ''t.id'' @ '' IN '' @ ''(?'' @ Repeat '',?'' (length ?r - 1) @ '')'',
              Args = map fst (order ?r)\<rparr>, None)"
    by (rule Filter_selects_all [OF assms(1-3) assms(5) loop]) simp_all
  moreover have "set (map fst (order ?r)) = {AnyInt64 5, AnyInt64 9}"
    unfolding set_map order_set [OF assms(5)] by simp
  moreover have "length (order ?r) = 2"
    using mset_eq_length [OF assms(5) [of ?r]] by simp
  ultimately show ?thesis by (simp add: Repeat_def del: set_map)
qed

theorem Filter_teams_end_to_end_witness:
  "snd (Filter sqlIDAcceptList rev
          (Some (userWithScopes [(''teams:read'', [''teams:id:5'', ''teams:id:9''])]))
          ''t.id'' ''teams:id:'' [''teams:read'']) = None
   \<and> Where (fst (Filter sqlIDAcceptList rev
          (Some (userWithScopes [(''teams:read'', [''teams:id:5'', ''teams:id:9''])]))
          ''t.id'' ''teams:id:'' [''teams:read''])) = '' t.id IN (?,?)''
   \<and> set (Args (fst (Filter sqlIDAcceptList rev
          (Some (userWithScopes [(''teams:read'', [''teams:id:5'', ''teams:id:9''])]))
          ''t.id'' ''teams:id:'' [''teams:read'']))) = {AnyInt64 5, AnyInt64 9}
   \<and> length (Args (fst (Filter sqlIDAcceptList rev
          (Some (userWithScopes [(''teams:read'', [''teams:id:5'', ''teams:id:9''])]))
          ''t.id'' ''teams:id:'' [''teams:read'']))) = 2"
proof (rule Filter_teams_end_to_end)
  let ?scopes = "[(''teams:read'', [''teams:id:5'', ''teams:id:9''])]"
  show "''t.id'' \<in> set sqlIDAcceptList" by (simp add: sqlIDAcceptList_def)
  show "Permissions (userWithScopes ?scopes) = Some [1 \<mapsto> map_of ?scopes]"
    by (simp add: userWithScopes_def)
  show "[1 \<mapsto> map_of ?scopes] (OrgID (userWithScopes ?scopes)) = Some (map_of ?scopes)"
    by (simp add: userWithScopes_def)
  show "map_of ?scopes ''teams:read'' = Some [''teams:id:5'', ''teams:id:9'']" by simp
  show "mset (rev xs) = mset xs" for xs :: "(any \<times> nat) list" by simp
qed

end
